theory Spec2Isabelle
  imports Complex_Main "HOL-Library.Sublist"
begin

section \<open>Python string primitives used by the response shaping pipeline\<close>

text \<open>
  \<^verbatim>\<open>str.split(sep)\<close> for a separator string: the text is scanned from the left and cut at
  every non-overlapping occurrence of \<open>sep\<close>; the pieces between the cuts are returned, so
  a text without the separator gives the one-element list holding the text, and the empty
  text gives \<open>[[]]\<close>. Python raises ValueError for the empty separator; every call in the
  sources passes a non-empty literal, and the model leaves the text uncut there.
\<close>

fun split_str :: "string \<Rightarrow> string \<Rightarrow> string list" where
  "split_str sep [] = [[]]"
| "split_str sep (c # cs) =
     (if sep \<noteq> [] \<and> prefix sep (c # cs)
      then [] # split_str sep (drop (length sep) (c # cs))
      else (let rest = split_str sep cs in (c # hd rest) # tl rest))"

text \<open>
  \<^verbatim>\<open>str.replace(old, new)\<close>: every non-overlapping occurrence of \<open>old\<close>, found from the
  left, is replaced by \<open>new\<close>. For the empty pattern Python inserts \<open>new\<close> before every
  character and at the end.
\<close>

fun replace_str :: "string \<Rightarrow> string \<Rightarrow> string \<Rightarrow> string" where
  "replace_str old new [] = (if old = [] then new else [])"
| "replace_str old new (c # cs) =
     (if old = [] then new @ c # replace_str old new cs
      else if prefix old (c # cs)
      then new @ replace_str old new (drop (length old) (c # cs))
      else c # replace_str old new cs)"

section \<open>The segmenter: \<^verbatim>\<open>split_long_message\<close> of main.py\<close>

text \<open>
  The loop state of \<^verbatim>\<open>split_long_message\<close>: the list \<^verbatim>\<open>chunks\<close> built so far and the
  accumulator \<^verbatim>\<open>current_chunk\<close>. \<^verbatim>\<open>len\<close> is read as an \<open>int\<close>, as \<^verbatim>\<open>max_length\<close> is a
  Python int of either sign.
\<close>

type_synonym seg_state = "string list \<times> string"

abbreviation len :: "string \<Rightarrow> int" where
  "len s \<equiv> int (length s)"

text \<open>Body of the innermost loop \<^verbatim>\<open>for word in words\<close>.\<close>

definition word_step :: "int \<Rightarrow> seg_state \<Rightarrow> string \<Rightarrow> seg_state" where
  "word_step max_length st word =
     (case st of (chunks, current_chunk) \<Rightarrow>
        if len current_chunk + len word + 1 > max_length
        then (chunks @ [current_chunk], word)
        else if current_chunk \<noteq> []
        then (chunks, current_chunk @ '' '' @ word)
        else (chunks, word))"

text \<open>Body of the loop \<^verbatim>\<open>for sentence in sentences\<close>.\<close>

definition sentence_step :: "int \<Rightarrow> seg_state \<Rightarrow> string \<Rightarrow> seg_state" where
  "sentence_step max_length st sentence =
     (case st of (chunks, current_chunk) \<Rightarrow>
        if len current_chunk + len sentence + 1 > max_length
        then
          (let st1 = (if current_chunk \<noteq> [] then (chunks @ [current_chunk], [])
                      else (chunks, current_chunk))
           in if len sentence > max_length
              then foldl (word_step max_length) st1 (split_str '' '' sentence)
              else (fst st1, sentence))
        else if current_chunk \<noteq> []
        then (chunks, current_chunk @ '' '' @ sentence)
        else (chunks, sentence))"

text \<open>The line \<^verbatim>\<open>sentences = paragraph.replace(". ", ".\\n").split("\\n")\<close>.\<close>

definition sentences_of :: "string \<Rightarrow> string list" where
  "sentences_of paragraph =
     split_str [CHR 0x0A] (replace_str [CHR ''.'', CHR '' ''] [CHR ''.'', CHR 0x0A] paragraph)"

text \<open>Body of the outer loop \<^verbatim>\<open>for paragraph in paragraphs\<close>.\<close>

definition paragraph_step :: "int \<Rightarrow> seg_state \<Rightarrow> string \<Rightarrow> seg_state" where
  "paragraph_step max_length st paragraph =
     (case st of (chunks, current_chunk) \<Rightarrow>
        if len current_chunk + len paragraph + 2 > max_length
        then
          (let st1 = (if current_chunk \<noteq> [] then (chunks @ [current_chunk], [])
                      else (chunks, current_chunk))
           in if len paragraph > max_length
              then foldl (sentence_step max_length) st1 (sentences_of paragraph)
              else (fst st1, paragraph))
        else if current_chunk \<noteq> []
        then (chunks, current_chunk @ [CHR 0x0A, CHR 0x0A] @ paragraph)
        else (chunks, paragraph))"

definition split_long_message :: "string \<Rightarrow> int \<Rightarrow> string list" where
  "split_long_message text max_length =
     (if len text \<le> max_length then [text]
      else
        (case foldl (paragraph_step max_length) ([], [])
                (split_str [CHR 0x0A, CHR 0x0A] text) of
           (chunks, current_chunk) \<Rightarrow>
             if current_chunk \<noteq> [] then chunks @ [current_chunk] else chunks))"

text \<open>
  Python's \<^verbatim>\<open>str.isspace\<close> on the characters of one byte: tab, line feed, vertical
  tab, form feed, carriage return, the four separators \<open>0x1C\<close> to \<open>0x1F\<close>, and space.
\<close>

definition is_whitespace :: "char \<Rightarrow> bool" where
  "is_whitespace c = (c \<in> set [CHR 0x09, CHR 0x0A, CHR 0x0B, CHR 0x0C, CHR 0x0D,
                                  CHR 0x1C, CHR 0x1D, CHR 0x1E, CHR 0x1F, CHR '' ''])"

text \<open>Everything emitted so far by a loop state, in order: the chunks, then the accumulator.\<close>

definition flat :: "seg_state \<Rightarrow> string" where
  "flat st = concat (fst st) @ snd st"

text \<open>
  The words the segmenter can reach at its word level: every paragraph cut into sentences,
  every sentence cut at single spaces.
\<close>

definition word_units :: "string \<Rightarrow> string list" where
  "word_units text =
     concat (map (\<lambda>paragraph. concat (map (split_str '' '') (sentences_of paragraph)))
       (split_str [CHR 0x0A, CHR 0x0A] text))"

text \<open>
  A stretch of the text that holds neither a space nor a line feed: a word, or a part of
  one, that no level of the segmenter can cut.
\<close>

definition uncut :: "string \<Rightarrow> string \<Rightarrow> bool" where
  "uncut text w = (sublist w text \<and> CHR '' '' \<notin> set w \<and> CHR 0x0A \<notin> set w)"

text \<open>
  The size condition on one chunk: it fits, or it is an uncut stretch of the text.
  \<open>all_ok\<close> asks it of every chunk of a loop state and of the accumulator;
  \<open>no_empty\<close> says that no chunk emitted so far is empty.
\<close>

definition chunk_ok :: "int \<Rightarrow> string \<Rightarrow> string \<Rightarrow> bool" where
  "chunk_ok m text c = (len c \<le> m \<or> uncut text c)"

definition all_ok :: "int \<Rightarrow> string \<Rightarrow> seg_state \<Rightarrow> bool" where
  "all_ok m text st = ((\<forall>c \<in> set (fst st). chunk_ok m text c) \<and> chunk_ok m text (snd st))"

definition no_empty :: "seg_state \<Rightarrow> bool" where
  "no_empty st = ([] \<notin> set (fst st))"

text \<open>Every uncut stretch of the text is shorter than \<open>m\<close>: each word fits with room to spare.\<close>

definition words_fit :: "string \<Rightarrow> int \<Rightarrow> bool" where
  "words_fit text m = (\<forall>w. uncut text w \<longrightarrow> len w < m)"

section \<open>The length-class selector: \<^verbatim>\<open>DynamicResponseManager\<close> of dynamic_response.py\<close>

text \<open>
  The exceptions the selector's code can raise: a missing dictionary key, \<^verbatim>\<open>list.remove\<close>
  of an absent element, a float division by zero, and \<^verbatim>\<open>random.choice\<close> of an empty
  sequence. A step that raises returns \<open>Inl\<close> of the exception, and \<open>and_then\<close> passes
  the first exception on.
\<close>

datatype error = KeyError | ValueError | ZeroDivisionError | IndexError

definition and_then :: "error + 'a \<Rightarrow> ('a \<Rightarrow> error + 'b) \<Rightarrow> error + 'b" where
  "and_then r f = (case r of Inl e \<Rightarrow> Inl e | Inr x \<Rightarrow> f x)"

text \<open>
  The values of config.py that the selector reads. Floats are read as real numbers:
  rounding, overflow and underflow are not modelled.
\<close>

record config =
  DYNAMIC_MESSAGE_LENGTH_ENABLED :: bool
  EXTREMELY_SHORT_RESPONSE_PROBABILITY :: real
  SLIGHTLY_SHORT_RESPONSE_PROBABILITY :: real
  MEDIUM_RESPONSE_PROBABILITY :: real
  SLIGHTLY_LONG_RESPONSE_PROBABILITY :: real
  LONG_RESPONSE_PROBABILITY :: real
  RESPONSE_LENGTH_RANDOMNESS :: real

text \<open>The values config.py takes when the environment sets none of them.\<close>

definition default_config :: config where
  "default_config =
     \<lparr>DYNAMIC_MESSAGE_LENGTH_ENABLED = True,
      EXTREMELY_SHORT_RESPONSE_PROBABILITY = 0.15,
      SLIGHTLY_SHORT_RESPONSE_PROBABILITY = 0.20,
      MEDIUM_RESPONSE_PROBABILITY = 0.25,
      SLIGHTLY_LONG_RESPONSE_PROBABILITY = 0.20,
      LONG_RESPONSE_PROBABILITY = 0.20,
      RESPONSE_LENGTH_RANDOMNESS = 0.9\<rparr>"

text \<open>
  The two attributes of the manager object. \<^verbatim>\<open>__init__\<close> sets them to \<^verbatim>\<open>None\<close> and 0.
\<close>

record manager =
  last_response_type :: "string option"
  consecutive_same_type_count :: int

definition init_manager :: manager where
  "init_manager = \<lparr>last_response_type = None, consecutive_same_type_count = 0\<rparr>"

text \<open>
  The \<^verbatim>\<open>context\<close> dictionary, by the two keys the selector reads with \<^verbatim>\<open>context.get\<close>;
  a key that is absent is \<open>None\<close>. The argument itself is optional. An empty dictionary
  skips the context stage, and a dictionary without the two keys leaves the weights as
  they are, so the two are the same to the selector.
\<close>

record turn_context =
  is_first_message :: "bool option"
  message_count :: "int option"

text \<open>
  The module \<^verbatim>\<open>random\<close>: the stream of values that successive calls of
  \<^verbatim>\<open>random.random()\<close> return, and the number of values drawn so far, which every function
  that draws returns updated. \<open>uniform\<close> says that each value lies in \<open>[0, 1)\<close>, as
  \<^verbatim>\<open>random.random()\<close> promises.
\<close>

type_synonym rng = "nat \<Rightarrow> real"

definition uniform :: "rng \<Rightarrow> bool" where
  "uniform rnd = (\<forall>i. 0 \<le> rnd i \<and> rnd i < 1)"

text \<open>
  \<^verbatim>\<open>random.choice(seq)\<close>: IndexError on the empty sequence, otherwise one element. The
  index is taken from one draw \<open>u\<close> as \<open>\<lfloor>u * len(seq)\<rfloor>\<close>, which reaches every index and
  no other when \<open>u\<close> is in \<open>[0, 1)\<close>.
\<close>

definition choice :: "rng \<Rightarrow> nat \<Rightarrow> 'a list \<Rightarrow> error + ('a \<times> nat)" where
  "choice rnd pos seq =
     (let i = nat \<lfloor>rnd pos * real (length seq)\<rfloor>
      in if i < length seq then Inr (seq ! i, Suc pos) else Inl IndexError)"

text \<open>
  The dictionary \<^verbatim>\<open>probabilities\<close>: its items in insertion order, which is the order the
  cumulative distribution is built in. \<open>scale k f\<close> is the statement
  \<^verbatim>\<open>probabilities[k] *= f\<close>, a KeyError when the key is absent; \<open>scale_all\<close> runs
  several such statements one after the other.
\<close>

type_synonym weights = "(string \<times> real) list"

definition class_names :: "string list" where
  "class_names = [''extremely_short'', ''slightly_short'', ''medium'', ''slightly_long'', ''long'']"

definition scaled :: "string \<Rightarrow> real \<Rightarrow> weights \<Rightarrow> weights" where
  "scaled k f d = map (\<lambda>(k', v). if k' = k then (k', v * f) else (k', v)) d"

definition scale :: "string \<Rightarrow> real \<Rightarrow> weights \<Rightarrow> error + weights" where
  "scale k f d = (if k \<in> set (map fst d) then Inr (scaled k f d) else Inl KeyError)"

fun scale_all :: "(string \<times> real) list \<Rightarrow> weights \<Rightarrow> error + weights" where
  "scale_all [] d = Inr d"
| "scale_all ((k, f) # kfs) d = and_then (scale k f d) (scale_all kfs)"

text \<open>\<^verbatim>\<open>str.lower\<close> on the letters of ASCII; every other character is kept.\<close>

definition lower_char :: "char \<Rightarrow> char" where
  "lower_char c =
     (let n = (of_char c :: nat) in if 65 \<le> n \<and> n \<le> 90 then char_of (n + 32) else c)"

definition command_indicators :: "string list" where
  "command_indicators =
     [''please'', ''can you'', ''could you'', ''would you'', ''tell me'', ''show me'', ''help me'']"

definition adjust_probabilities_for_content :: "weights \<Rightarrow> string \<Rightarrow> error + weights" where
  "adjust_probabilities_for_content probabilities message_content =
     and_then
       (if length message_content < 50
        then scale_all [(''extremely_short'', 1.5), (''slightly_short'', 1.3), (''long'', 0.7)]
               probabilities
        else if length message_content > 200
        then scale_all [(''slightly_long'', 1.3), (''long'', 1.5), (''extremely_short'', 0.7)]
               probabilities
        else Inr probabilities)
       (\<lambda>d1. and_then
          (if CHR ''?'' \<in> set message_content
           then scale_all [(''medium'', 1.3), (''slightly_long'', 1.2)] d1
           else Inr d1)
          (\<lambda>d2.
             if \<exists>indicator \<in> set command_indicators.
                  sublist indicator (map lower_char message_content)
             then scale_all [(''extremely_short'', 1.2), (''slightly_short'', 1.1)] d2
             else Inr d2))"

definition adjust_probabilities_for_context :: "weights \<Rightarrow> turn_context \<Rightarrow> error + weights" where
  "adjust_probabilities_for_context probabilities ctx =
     and_then
       (if (case is_first_message ctx of None \<Rightarrow> False | Some b \<Rightarrow> b)
        then scale_all [(''medium'', 1.5), (''slightly_long'', 1.3), (''extremely_short'', 0.5)]
               probabilities
        else Inr probabilities)
       (\<lambda>d1.
          if (case message_count ctx of None \<Rightarrow> 0 | Some n \<Rightarrow> n) > 5
          then scale_all [(''extremely_short'', 1.2), (''long'', 1.2)] d1
          else Inr d1)"

text \<open>The damping factor \<^verbatim>\<open>min(0.3, 0.8 ** self.consecutive_same_type_count)\<close>.\<close>

definition reduction_factor :: "int \<Rightarrow> real" where
  "reduction_factor n = min 0.3 (power_int 0.8 n)"

text \<open>
  The push-away rule, the body of \<^verbatim>\<open>if ... and random.random() < 0.8\<close>, keyed on the
  previous class.
\<close>

definition push_away :: "string \<Rightarrow> weights \<Rightarrow> error + weights" where
  "push_away prev d =
     (if prev \<in> set [''extremely_short'', ''slightly_short'']
      then scale_all [(''slightly_long'', 3.0), (''long'', 3.0), (''medium'', 2.0)] d
      else if prev = ''medium''
      then scale_all [(''extremely_short'', 2.5), (''long'', 2.5)] d
      else if prev \<in> set [''slightly_long'', ''long'']
      then scale_all [(''extremely_short'', 3.0), (''slightly_short'', 3.0)] d
      else Inr d)"

text \<open>
  The body of \<^verbatim>\<open>if random.random() < 0.2\<close>: the keys without the previous class
  (\<^verbatim>\<open>list.remove\<close> raises ValueError when it is not among them), one of them chosen, its
  weight multiplied by 4.
\<close>

definition boost_random_type :: "rng \<Rightarrow> string \<Rightarrow> weights \<times> nat \<Rightarrow> error + weights \<times> nat" where
  "boost_random_type rnd prev st =
     (case st of (d, pos) \<Rightarrow>
        if prev \<in> set (map fst d)
        then and_then (choice rnd pos (remove1 prev (map fst d)))
               (\<lambda>(random_type, pos'). and_then (scale random_type 4.0 d) (\<lambda>d'. Inr (d', pos')))
        else Inl ValueError)"

definition adjust_probabilities_for_variety ::
  "rng \<Rightarrow> manager \<Rightarrow> weights \<times> nat \<Rightarrow> error + weights \<times> nat" where
  "adjust_probabilities_for_variety rnd self st =
     (case st of (probabilities, pos) \<Rightarrow>
        (case last_response_type self of
           None \<Rightarrow> Inr (probabilities, pos)
         | Some prev \<Rightarrow>
             if consecutive_same_type_count self > 0 \<and> prev \<noteq> []
             then
               and_then (scale prev (reduction_factor (consecutive_same_type_count self))
                           probabilities)
                 (\<lambda>d1. and_then
                    (if consecutive_same_type_count self \<ge> 1
                     then (if rnd pos < 0.8
                           then and_then (push_away prev d1) (\<lambda>d2. Inr (d2, Suc pos))
                           else Inr (d1, Suc pos))
                     else Inr (d1, pos))
                    (\<lambda>(d2, pos2).
                       if rnd pos2 < 0.2
                       then boost_random_type rnd prev (d2, Suc pos2)
                       else Inr (d2, Suc pos2)))
             else Inr (probabilities, pos)))"

text \<open>
  \<^verbatim>\<open>_apply_randomness\<close>: one draw for each key, in the order of the dictionary, each
  weight multiplied by \<open>1 + randomness * (2u - 1)\<close>. Every key of the dictionary is its own,
  so the assignment cannot raise.
\<close>

fun apply_randomness :: "real \<Rightarrow> rng \<Rightarrow> nat \<Rightarrow> weights \<Rightarrow> weights" where
  "apply_randomness randomness rnd pos [] = []"
| "apply_randomness randomness rnd pos ((key, v) # d) =
     (key, v * (1.0 + randomness * (rnd pos * 2 - 1)))
       # apply_randomness randomness rnd (Suc pos) d"

text \<open>
  The normalisation \<^verbatim>\<open>{k: v/total for k, v in probabilities.items()}\<close>: the float
  division raises ZeroDivisionError when the total is zero and there is an item to divide.
\<close>

definition normalize :: "weights \<Rightarrow> error + weights" where
  "normalize d =
     (let total = sum_list (map snd d)
      in if d \<noteq> [] \<and> total = 0 then Inl ZeroDivisionError
         else Inr (map (\<lambda>(k, v). (k, v / total)) d))"

text \<open>
  \<^verbatim>\<open>_select_response_type\<close>: the running sums in the order of the items, one draw, the
  first item whose running sum the draw does not exceed, and \<^verbatim>\<open>"medium"\<close> when there is
  none.
\<close>

fun cumulative :: "real \<Rightarrow> weights \<Rightarrow> weights" where
  "cumulative cumulative_prob [] = []"
| "cumulative cumulative_prob ((item, prob) # items) =
     (item, cumulative_prob + prob) # cumulative (cumulative_prob + prob) items"

fun first_reached :: "real \<Rightarrow> weights \<Rightarrow> string" where
  "first_reached rand_val [] = ''medium''"
| "first_reached rand_val ((item, cum_prob) # cps) =
     (if rand_val \<le> cum_prob then item else first_reached rand_val cps)"

definition select_response_type :: "rng \<Rightarrow> weights \<times> nat \<Rightarrow> string \<times> nat" where
  "select_response_type rnd st =
     (case st of (probabilities, pos) \<Rightarrow>
        (first_reached (rnd pos) (cumulative 0 probabilities), Suc pos))"

text \<open>The block \<^verbatim>\<open># Update tracking variables\<close> of \<^verbatim>\<open>get_response_type\<close>.\<close>

definition update_tracking :: "manager \<Rightarrow> string \<Rightarrow> manager" where
  "update_tracking self response_type =
     (if Some response_type = last_response_type self
      then self\<lparr>consecutive_same_type_count := consecutive_same_type_count self + 1\<rparr>
      else self\<lparr>consecutive_same_type_count := 0, last_response_type := Some response_type\<rparr>)"

text \<open>
  The first four stages of \<^verbatim>\<open>get_response_type\<close>: the base weights from the
  configuration, then the content, context, variety and randomness adjustments. The result
  is the dictionary that the normalisation divides, with the number of draws used.
\<close>

definition base_probabilities :: "config \<Rightarrow> weights" where
  "base_probabilities cfg =
     [(''extremely_short'', EXTREMELY_SHORT_RESPONSE_PROBABILITY cfg),
      (''slightly_short'', SLIGHTLY_SHORT_RESPONSE_PROBABILITY cfg),
      (''medium'', MEDIUM_RESPONSE_PROBABILITY cfg),
      (''slightly_long'', SLIGHTLY_LONG_RESPONSE_PROBABILITY cfg),
      (''long'', LONG_RESPONSE_PROBABILITY cfg)]"

definition adjusted_probabilities ::
  "config \<Rightarrow> rng \<Rightarrow> manager \<Rightarrow> nat \<Rightarrow> string \<Rightarrow> turn_context option \<Rightarrow> error + weights \<times> nat" where
  "adjusted_probabilities cfg rnd self pos message_content context =
     and_then (adjust_probabilities_for_content (base_probabilities cfg) message_content)
       (\<lambda>d1. and_then
          (case context of None \<Rightarrow> Inr d1
           | Some ctx \<Rightarrow> adjust_probabilities_for_context d1 ctx)
          (\<lambda>d2. and_then (adjust_probabilities_for_variety rnd self (d2, pos))
             (\<lambda>(d3, pos3).
                Inr (apply_randomness (RESPONSE_LENGTH_RANDOMNESS cfg) rnd pos3 d3,
                     pos3 + length d3))))"

text \<open>
  \<^verbatim>\<open>get_response_type\<close>: the class chosen, the manager after the call and the number of
  draws used so far; or the exception raised.
\<close>

definition get_response_type ::
  "config \<Rightarrow> rng \<Rightarrow> manager \<Rightarrow> nat \<Rightarrow> string \<Rightarrow> turn_context option
     \<Rightarrow> error + string \<times> manager \<times> nat" where
  "get_response_type cfg rnd self pos message_content context =
     (if \<not> DYNAMIC_MESSAGE_LENGTH_ENABLED cfg then Inr (''medium'', self, pos)
      else
        and_then (adjusted_probabilities cfg rnd self pos message_content context)
          (\<lambda>(probabilities, pos4). and_then (normalize probabilities)
             (\<lambda>normalized_probabilities.
                (case select_response_type rnd (normalized_probabilities, pos4) of
                   (response_type, pos5) \<Rightarrow>
                     Inr (response_type, update_tracking self response_type, pos5)))))"

text \<open>
  A conversation: \<^verbatim>\<open>get_response_type\<close> called once for each turn on the same manager,
  the classes chosen collected in order. The first exception ends the run.
\<close>

fun run_turns ::
  "config \<Rightarrow> rng \<Rightarrow> (string \<times> turn_context option) list \<Rightarrow> manager \<Rightarrow> nat
     \<Rightarrow> error + string list \<times> manager \<times> nat" where
  "run_turns cfg rnd [] self pos = Inr ([], self, pos)"
| "run_turns cfg rnd ((message_content, context) # turns) self pos =
     and_then (get_response_type cfg rnd self pos message_content context)
       (\<lambda>(response_type, self', pos').
          and_then (run_turns cfg rnd turns self' pos')
            (\<lambda>(rs, st). Inr (response_type # rs, st)))"

text \<open>The managers a conversation can reach from a fresh one by calls that return.\<close>

inductive reachable :: "manager \<Rightarrow> bool" where
  fresh: "reachable init_manager"
| call: "reachable self \<Longrightarrow>
         get_response_type cfg rnd self pos message_content context = Inr (r, self', pos') \<Longrightarrow>
         reachable self'"

subsection \<open>Notions the claims about the selector are stated with\<close>

text \<open>
  \<open>trailing_run rs\<close> is the number of turns at the end of the history \<open>rs\<close> that chose the
  class of the last turn.
\<close>

definition trailing_run :: "string list \<Rightarrow> nat" where
  "trailing_run rs = length (takeWhile (\<lambda>r. r = last rs) (rev rs))"

text \<open>
  A history is tracked by a manager when the manager holds the class of the last turn and
  one less than the length of the trailing run; before the first turn it holds no class.
\<close>

definition tracks :: "string list \<Rightarrow> manager \<Rightarrow> bool" where
  "tracks hist self =
     (if hist = [] then last_response_type self = None
      else last_response_type self = Some (last hist) \<and>
           consecutive_same_type_count self = int (trailing_run hist) - 1)"


text \<open>The state invariant: no class yet or one of the five, and a count that is not negative.\<close>

definition state_ok :: "manager \<Rightarrow> bool" where
  "state_ok self =
     ((case last_response_type self of None \<Rightarrow> True | Some c \<Rightarrow> c \<in> set class_names) \<and>
      0 \<le> consecutive_same_type_count self)"

text \<open>
  Sampling as the specification words it: the first class, in the order of the items,
  whose cumulative probability is at least the value drawn, and \<^verbatim>\<open>"medium"\<close> when no
  class is reached.
\<close>

definition sample_spec :: "real \<Rightarrow> weights \<Rightarrow> string" where
  "sample_spec v d =
     (case filter (\<lambda>i. v \<le> sum_list (map snd (take (Suc i) d))) [0..<length d] of
        [] \<Rightarrow> ''medium''
      | i # _ \<Rightarrow> fst (d ! i))"

text \<open>
  \<open>rescaled strict d d'\<close>: the dictionary \<open>d'\<close> has the keys of \<open>d\<close> in the same order, and
  each of its weights is the weight of \<open>d\<close> times a factor that is positive (not negative,
  when \<open>strict\<close> is off).
\<close>

definition rescaled :: "bool \<Rightarrow> weights \<Rightarrow> weights \<Rightarrow> bool" where
  "rescaled strict d d' =
     list_all2 (\<lambda>kv kv'. fst kv' = fst kv \<and>
        (\<exists>f. (if strict then 0 < f else 0 \<le> f) \<and> snd kv' = snd kv * f)) d d'"

text \<open>A step returns, and its dictionary is the given one rescaled by positive factors.\<close>

definition returns_rescaled :: "weights \<Rightarrow> error + weights \<Rightarrow> bool" where
  "returns_rescaled d r = (\<exists>d'. r = Inr d' \<and> rescaled True d d')"

section \<open>Properties of the string primitives\<close>

lemma split_str_nonempty: "split_str sep s \<noteq> []"
  by (induction sep s rule: split_str.induct) (auto simp: Let_def)

lemma concat_hd_tl: "r \<noteq> [] \<Longrightarrow> concat ((c # hd r) # tl r) = c # concat r"
  by (cases r) auto

lemma split_str_match:
  "sep \<noteq> [] \<Longrightarrow> split_str sep (sep @ zs) = [] # split_str sep zs"
  by (cases sep) auto

lemma split_str_no_match:
  "\<not> (sep \<noteq> [] \<and> prefix sep (c # cs)) \<Longrightarrow>
   split_str sep (c # cs) = (c # hd (split_str sep cs)) # tl (split_str sep cs)"
  by (simp add: Let_def)

lemma filter_concat_split_str:
  "\<forall>c \<in> set sep. \<not> P c \<Longrightarrow> filter P (concat (split_str sep s)) = filter P s"
proof (induction sep s rule: split_str.induct)
  case (1 sep)
  show ?case by simp
next
  case (2 sep c cs)
  have fs: "filter P sep = []" using 2(3) by simp
  show ?case
  proof (cases "sep \<noteq> [] \<and> prefix sep (c # cs)")
    case True
    then obtain zs where zs: "c # cs = sep @ zs" by (auto simp: prefix_def)
    then have d: "drop (length sep) (c # cs) = zs" by simp
    have "filter P (concat (split_str sep zs)) = filter P zs"
      using 2(1) [OF True] 2(3) d by simp
    then show ?thesis
      unfolding zs using True fs by (simp add: split_str_match)
  next
    case False
    have "concat (split_str sep (c # cs)) = c # concat (split_str sep cs)"
      unfolding split_str_no_match [OF False]
      by (rule concat_hd_tl [OF split_str_nonempty])
    then show ?thesis using 2(2) [OF False] 2(3) by simp
  qed
qed

lemma replace_str_match:
  "old \<noteq> [] \<Longrightarrow> replace_str old new (old @ zs) = new @ replace_str old new zs"
  by (cases old) auto

lemma filter_replace_str:
  "old \<noteq> [] \<Longrightarrow> filter P new = filter P old \<Longrightarrow>
   filter P (replace_str old new s) = filter P s"
proof (induction old new s rule: replace_str.induct)
  case (1 old new)
  then show ?case by simp
next
  case (2 old new c cs)
  show ?case
  proof (cases "prefix old (c # cs)")
    case True
    then obtain zs where zs: "c # cs = old @ zs" by (auto simp: prefix_def)
    then have d: "drop (length old) (c # cs) = zs" by simp
    have "filter P (replace_str old new zs) = filter P zs"
      using 2(2) [OF 2(4) True] 2(4,5) d by simp
    then show ?thesis
      unfolding zs using 2(4,5) by (simp add: replace_str_match)
  next
    case False
    then show ?thesis using 2(3) [OF 2(4) False] 2(4,5) by simp
  qed
qed

lemma split_str_char_free:
  "w \<in> set (split_str [x] s) \<Longrightarrow> x \<notin> set w"
proof (induction s arbitrary: w)
  case Nil
  then show ?case by simp
next
  case (Cons c cs)
  have ne: "split_str [x] cs \<noteq> []" by (rule split_str_nonempty)
  show ?case
  proof (cases "c = x")
    case True
    with Cons show ?thesis by auto
  next
    case False
    from Cons.prems False
    have "w = c # hd (split_str [x] cs) \<or> w \<in> set (tl (split_str [x] cs))"
      by (simp add: Let_def)
    then show ?thesis
    proof
      assume w: "w = c # hd (split_str [x] cs)"
      have "hd (split_str [x] cs) \<in> set (split_str [x] cs)" using ne by simp
      then have "x \<notin> set (hd (split_str [x] cs))" by (rule Cons.IH)
      then show ?thesis using False w by simp
    next
      assume "w \<in> set (tl (split_str [x] cs))"
      then have "w \<in> set (split_str [x] cs)" using ne by (meson list.set_sel(2))
      then show ?thesis by (rule Cons.IH)
    qed
  qed
qed

lemma split_str_absent:
  "x \<in> set sep \<Longrightarrow> x \<notin> set s \<Longrightarrow> split_str sep s = [s]"
proof (induction s)
  case Nil
  then show ?case by simp
next
  case (Cons c cs)
  have "\<not> prefix sep (c # cs)"
  proof
    assume "prefix sep (c # cs)"
    then have "set sep \<subseteq> set (c # cs)" by (rule set_mono_prefix)
    with Cons.prems show False by auto
  qed
  with Cons show ?case by (simp add: Let_def)
qed

lemma replace_str_absent:
  "x \<in> set old \<Longrightarrow> x \<notin> set s \<Longrightarrow> replace_str old new s = s"
proof (induction s)
  case Nil
  then show ?case by auto
next
  case (Cons c cs)
  have "\<not> prefix old (c # cs)"
  proof
    assume "prefix old (c # cs)"
    then have "set old \<subseteq> set (c # cs)" by (rule set_mono_prefix)
    with Cons.prems show False by auto
  qed
  moreover have "old \<noteq> []" using Cons.prems by auto
  ultimately show ?case using Cons by simp
qed

lemma split_str_hd_prefix: "prefix (hd (split_str sep s)) s"
  by (induction sep s rule: split_str.induct) (auto simp: Let_def)

lemma split_str_sublist:
  "w \<in> set (split_str sep s) \<Longrightarrow> sublist w s"
proof (induction sep s arbitrary: w rule: split_str.induct)
  case (1 sep)
  then show ?case by simp
next
  case (2 sep c cs)
  show ?case
  proof (cases "sep \<noteq> [] \<and> prefix sep (c # cs)")
    case True
    with 2(3) have "w = [] \<or> w \<in> set (split_str sep (drop (length sep) (c # cs)))"
      by simp
    then show ?thesis
    proof
      assume "w = []" then show ?thesis by simp
    next
      assume "w \<in> set (split_str sep (drop (length sep) (c # cs)))"
      then have "sublist w (drop (length sep) (c # cs))" using 2(1) [OF True] by simp
      then show ?thesis
        using sublist_drop [of "length sep" "c # cs"] by (rule sublist_order.order_trans)
    qed
  next
    case False
    have ne: "split_str sep cs \<noteq> []" by (rule split_str_nonempty)
    from 2(3) False
    have "w = c # hd (split_str sep cs) \<or> w \<in> set (tl (split_str sep cs))"
      unfolding split_str_no_match [OF False] by simp
    then show ?thesis
    proof
      assume "w = c # hd (split_str sep cs)"
      then have "prefix w (c # cs)" using split_str_hd_prefix [of sep cs] by simp
      then show ?thesis by (rule prefix_imp_sublist)
    next
      assume "w \<in> set (tl (split_str sep cs))"
      then have "w \<in> set (split_str sep cs)" using ne by (meson list.set_sel(2))
      then have "sublist w cs" using 2(2) [OF False] by simp
      then show ?thesis by (simp add: sublist_Cons_right)
    qed
  qed
qed

lemma replace_str_no_match:
  "old \<noteq> [] \<Longrightarrow> \<not> prefix old (c # cs) \<Longrightarrow>
   replace_str old new (c # cs) = c # replace_str old new cs"
  by simp

lemma prefix_replace_dot_space:
  "prefix w (replace_str [CHR ''.'', CHR '' ''] [CHR ''.'', CHR 0x0A] s) \<Longrightarrow>
   CHR 0x0A \<notin> set w \<Longrightarrow> prefix w s"
proof (induction s arbitrary: w)
  case Nil
  then show ?case by simp
next
  case (Cons c cs)
  show ?case
  proof (cases "prefix [CHR ''.'', CHR '' ''] (c # cs)")
    case True
    then obtain zs where zs: "c # cs = CHR ''.'' # CHR '' '' # zs" by (auto simp: prefix_def)
    have "prefix w (CHR ''.'' # CHR 0x0A # replace_str [CHR ''.'', CHR '' ''] [CHR ''.'', CHR 0x0A] zs)"
      using Cons.prems(1) unfolding zs by simp
    then have "w = [] \<or> w = [CHR ''.'']"
      using Cons.prems(2) by (auto simp: prefix_Cons)
    then show ?thesis unfolding zs by auto
  next
    case False
    have rs: "replace_str [CHR ''.'', CHR '' ''] [CHR ''.'', CHR 0x0A] (c # cs) =
        c # replace_str [CHR ''.'', CHR '' ''] [CHR ''.'', CHR 0x0A] cs"
      using False by (intro replace_str_no_match) simp_all
    have "prefix w (c # replace_str [CHR ''.'', CHR '' ''] [CHR ''.'', CHR 0x0A] cs)"
      using Cons.prems(1) unfolding rs .
    then show ?thesis using Cons.IH Cons.prems(2) by (auto simp: prefix_Cons)
  qed
qed

lemma sublist_replace_dot_space:
  "sublist w (replace_str [CHR ''.'', CHR '' ''] [CHR ''.'', CHR 0x0A] s) \<Longrightarrow>
   CHR 0x0A \<notin> set w \<Longrightarrow> sublist w s"
proof (induction "length s" arbitrary: s w rule: less_induct)
  case less
  show ?case
  proof (cases s)
    case Nil
    with less.prems show ?thesis by simp
  next
    case (Cons c cs)
    show ?thesis
    proof (cases "prefix w (replace_str [CHR ''.'', CHR '' ''] [CHR ''.'', CHR 0x0A] s)")
      case True
      then have "prefix w s" using less.prems(2) by (rule prefix_replace_dot_space)
      then show ?thesis by (rule prefix_imp_sublist)
    next
      case np: False
      show ?thesis
      proof (cases "prefix [CHR ''.'', CHR '' ''] (c # cs)")
        case True
        then obtain zs where zs: "s = CHR ''.'' # CHR '' '' # zs"
          using Cons by (auto simp: prefix_def)
        let ?r = "replace_str [CHR ''.'', CHR '' ''] [CHR ''.'', CHR 0x0A] zs"
        have rs: "replace_str [CHR ''.'', CHR '' ''] [CHR ''.'', CHR 0x0A] s = CHR ''.'' # CHR 0x0A # ?r"
          unfolding zs by simp
        have "sublist w (CHR 0x0A # ?r)"
          using less.prems(1) np unfolding rs by (simp add: sublist_Cons_right)
        then have "prefix w (CHR 0x0A # ?r) \<or> sublist w ?r"
          by (simp add: sublist_Cons_right)
        then have "sublist w ?r"
          using less.prems(2) by (auto simp: prefix_Cons)
        then have "sublist w zs"
          using less.hyps [of zs w] less.prems(2) zs by simp
        then show ?thesis unfolding zs by (simp add: sublist_Cons_right)
      next
        case False
        have rs: "replace_str [CHR ''.'', CHR '' ''] [CHR ''.'', CHR 0x0A] s =
            c # replace_str [CHR ''.'', CHR '' ''] [CHR ''.'', CHR 0x0A] cs"
          unfolding Cons using False by (intro replace_str_no_match) simp_all
        have "sublist w (replace_str [CHR ''.'', CHR '' ''] [CHR ''.'', CHR 0x0A] cs)"
          using less.prems(1) np unfolding rs by (simp add: sublist_Cons_right)
        then have "sublist w cs"
          using less.hyps [of cs w] less.prems(2) Cons by simp
        then show ?thesis unfolding Cons by (simp add: sublist_Cons_right)
      qed
    qed
  qed
qed

section \<open>Invariants of the segmenter's loops\<close>

lemma word_units_run:
  assumes "w \<in> set (word_units text)"
  shows "uncut text w"
proof -
  from assms obtain p s where
    p: "p \<in> set (split_str [CHR 0x0A, CHR 0x0A] text)" and
    s: "s \<in> set (sentences_of p)" and
    w: "w \<in> set (split_str '' '' s)"
    by (auto simp: word_units_def)
  have ws: "sublist w s" using w by (rule split_str_sublist)
  have nsp: "CHR '' '' \<notin> set w" using w by (rule split_str_char_free)
  have "CHR 0x0A \<notin> set s" using s unfolding sentences_of_def by (rule split_str_char_free)
  then have nnl: "CHR 0x0A \<notin> set w" using ws set_mono_sublist by blast
  have "sublist s (replace_str [CHR ''.'', CHR '' ''] [CHR ''.'', CHR 0x0A] p)"
    using s unfolding sentences_of_def by (rule split_str_sublist)
  with ws have "sublist w (replace_str [CHR ''.'', CHR '' ''] [CHR ''.'', CHR 0x0A] p)"
    by (rule sublist_order.order_trans)
  then have "sublist w p" using nnl by (rule sublist_replace_dot_space)
  moreover have "sublist p text" using p by (rule split_str_sublist)
  ultimately have "sublist w text" by (rule sublist_order.order_trans)
  with nsp nnl show ?thesis by (simp add: uncut_def)
qed

lemma word_units_intro:
  "p \<in> set (split_str [CHR 0x0A, CHR 0x0A] text) \<Longrightarrow> s \<in> set (sentences_of p) \<Longrightarrow>
   w \<in> set (split_str '' '' s) \<Longrightarrow> w \<in> set (word_units text)"
  by (auto simp: word_units_def)

lemma filter_sentences_of:
  assumes "\<not> P (CHR '' '')" "\<not> P (CHR 0x0A)"
  shows "filter P (concat (sentences_of p)) = filter P p"
proof -
  have "filter P (replace_str [CHR ''.'', CHR '' ''] [CHR ''.'', CHR 0x0A] p) = filter P p"
    using assms by (intro filter_replace_str) simp_all
  then show ?thesis
    unfolding sentences_of_def using assms by (subst filter_concat_split_str) simp_all
qed

subsection \<open>Nothing but separators is lost\<close>

lemma word_step_flat:
  "\<not> P (CHR '' '') \<Longrightarrow>
   filter P (flat (word_step m st w)) = filter P (flat st) @ filter P w"
  by (cases st) (simp add: word_step_def flat_def)

lemma foldl_word_step_flat:
  "\<not> P (CHR '' '') \<Longrightarrow>
   filter P (flat (foldl (word_step m) st ws)) = filter P (flat st) @ filter P (concat ws)"
  by (induction ws arbitrary: st) (simp_all add: word_step_flat)

lemma sentence_step_flat:
  assumes "\<not> P (CHR '' '')"
  shows "filter P (flat (sentence_step m st s)) = filter P (flat st) @ filter P s"
proof -
  obtain chunks cur where st: "st = (chunks, cur)" by (cases st)
  have sp: "filter P (concat (split_str '' '' s)) = filter P s"
    using assms by (intro filter_concat_split_str) simp
  show ?thesis
    unfolding st sentence_step_def
    using assms sp by (simp add: foldl_word_step_flat Let_def) (simp add: flat_def)
qed

lemma foldl_sentence_step_flat:
  "\<not> P (CHR '' '') \<Longrightarrow>
   filter P (flat (foldl (sentence_step m) st ss)) = filter P (flat st) @ filter P (concat ss)"
  by (induction ss arbitrary: st) (simp_all add: sentence_step_flat)

lemma paragraph_step_flat:
  assumes "\<not> P (CHR '' '')" "\<not> P (CHR 0x0A)"
  shows "filter P (flat (paragraph_step m st p)) = filter P (flat st) @ filter P p"
proof -
  obtain chunks cur where st: "st = (chunks, cur)" by (cases st)
  note sp = filter_sentences_of [OF assms, of p]
  show ?thesis
    unfolding st paragraph_step_def
    using assms sp by (simp add: foldl_sentence_step_flat Let_def) (simp add: flat_def)
qed

lemma foldl_paragraph_step_flat:
  "\<not> P (CHR '' '') \<Longrightarrow> \<not> P (CHR 0x0A) \<Longrightarrow>
   filter P (flat (foldl (paragraph_step m) st ps)) = filter P (flat st) @ filter P (concat ps)"
  by (induction ps arbitrary: st) (simp_all add: paragraph_step_flat)

lemma split_long_message_content:
  assumes "\<not> P (CHR '' '')" "\<not> P (CHR 0x0A)"
  shows "filter P (concat (split_long_message text m)) = filter P text"
proof (cases "len text \<le> m")
  case True
  then show ?thesis by (simp add: split_long_message_def)
next
  case False
  obtain chunks cur where f: "foldl (paragraph_step m) ([], [])
      (split_str [CHR 0x0A, CHR 0x0A] text) = (chunks, cur)"
    by (cases "foldl (paragraph_step m) ([], []) (split_str [CHR 0x0A, CHR 0x0A] text)")
  have "filter P (flat (chunks, cur)) = filter P (concat (split_str [CHR 0x0A, CHR 0x0A] text))"
    using foldl_paragraph_step_flat [OF assms, of m "([], [])" "split_str [CHR 0x0A, CHR 0x0A] text"]
    by (simp add: f flat_def)
  also have "\<dots> = filter P text"
    using assms by (intro filter_concat_split_str) simp
  finally show ?thesis using False f by (auto simp: split_long_message_def flat_def)
qed

subsection \<open>Every chunk fits or is an uncut stretch\<close>

lemma chunk_ok_Nil: "chunk_ok m text []"
  by (simp add: chunk_ok_def uncut_def)

lemma word_step_ok:
  "all_ok m text st \<Longrightarrow> uncut text w \<Longrightarrow> all_ok m text (word_step m st w)"
  by (cases st) (auto simp: word_step_def all_ok_def chunk_ok_def)

lemma foldl_word_step_ok:
  "all_ok m text st \<Longrightarrow> \<forall>w \<in> set ws. uncut text w \<Longrightarrow>
   all_ok m text (foldl (word_step m) st ws)"
  by (induction ws arbitrary: st) (simp_all add: word_step_ok)

lemma sentence_step_ok:
  assumes "all_ok m text st" "\<forall>w \<in> set (split_str '' '' s). uncut text w"
  shows "all_ok m text (sentence_step m st s)"
proof -
  obtain chunks cur where st: "st = (chunks, cur)" by (cases st)
  have a: "all_ok m text (chunks @ [cur], [])" "all_ok m text (chunks, [])"
    using assms(1) by (auto simp: st all_ok_def chunk_ok_Nil)
  have f: "all_ok m text (foldl (word_step m) (chunks @ [cur], []) (split_str '' '' s))"
    "all_ok m text (foldl (word_step m) (chunks, []) (split_str '' '' s))"
    using a assms(2) by (simp_all add: foldl_word_step_ok)
  show ?thesis
    unfolding st sentence_step_def using f assms(1)
    by (auto simp: Let_def st all_ok_def chunk_ok_def)
qed

lemma foldl_sentence_step_ok:
  "all_ok m text st \<Longrightarrow> \<forall>s \<in> set ss. \<forall>w \<in> set (split_str '' '' s). uncut text w \<Longrightarrow>
   all_ok m text (foldl (sentence_step m) st ss)"
  by (induction ss arbitrary: st) (simp_all add: sentence_step_ok)

lemma paragraph_step_ok:
  assumes "all_ok m text st"
    "\<forall>s \<in> set (sentences_of p). \<forall>w \<in> set (split_str '' '' s). uncut text w"
  shows "all_ok m text (paragraph_step m st p)"
proof -
  obtain chunks cur where st: "st = (chunks, cur)" by (cases st)
  have a: "all_ok m text (chunks @ [cur], [])" "all_ok m text (chunks, [])"
    using assms(1) by (auto simp: st all_ok_def chunk_ok_Nil)
  have f: "all_ok m text (foldl (sentence_step m) (chunks @ [cur], []) (sentences_of p))"
    "all_ok m text (foldl (sentence_step m) (chunks, []) (sentences_of p))"
    using a assms(2) by (simp_all add: foldl_sentence_step_ok)
  show ?thesis
    unfolding st paragraph_step_def using f assms(1)
    by (auto simp: Let_def st all_ok_def chunk_ok_def)
qed

lemma foldl_paragraph_step_ok:
  "all_ok m text st \<Longrightarrow>
   \<forall>p \<in> set ps. \<forall>s \<in> set (sentences_of p). \<forall>w \<in> set (split_str '' '' s). uncut text w \<Longrightarrow>
   all_ok m text (foldl (paragraph_step m) st ps)"
  by (induction ps arbitrary: st) (simp_all add: paragraph_step_ok)

lemma split_long_message_ok:
  assumes c: "c \<in> set (split_long_message text m)"
  shows "chunk_ok m text c"
proof (cases "len text \<le> m")
  case True
  with c show ?thesis by (simp add: split_long_message_def chunk_ok_def)
next
  case False
  obtain chunks cur where f: "foldl (paragraph_step m) ([], [])
      (split_str [CHR 0x0A, CHR 0x0A] text) = (chunks, cur)"
    by (cases "foldl (paragraph_step m) ([], []) (split_str [CHR 0x0A, CHR 0x0A] text)")
  have "all_ok m text (foldl (paragraph_step m) ([], []) (split_str [CHR 0x0A, CHR 0x0A] text))"
  proof (rule foldl_paragraph_step_ok)
    show "all_ok m text ([], [])" by (simp add: all_ok_def chunk_ok_Nil)
    show "\<forall>p \<in> set (split_str [CHR 0x0A, CHR 0x0A] text).
            \<forall>s \<in> set (sentences_of p). \<forall>w \<in> set (split_str '' '' s). uncut text w"
      using word_units_intro word_units_run by blast
  qed
  then have "all_ok m text (chunks, cur)" by (simp add: f)
  with c False f show ?thesis
    by (auto simp: split_long_message_def all_ok_def split: if_splits)
qed

subsection \<open>No empty chunk while every word fits\<close>

lemma word_step_no_empty:
  "no_empty st \<Longrightarrow> len w < m \<Longrightarrow> no_empty (word_step m st w)"
  by (cases st) (auto simp: word_step_def no_empty_def)

lemma foldl_word_step_no_empty:
  "no_empty st \<Longrightarrow> \<forall>w \<in> set ws. len w < m \<Longrightarrow> no_empty (foldl (word_step m) st ws)"
  by (induction ws arbitrary: st) (simp_all add: word_step_no_empty)

lemma sentence_step_no_empty:
  assumes "no_empty st" "\<forall>w \<in> set (split_str '' '' s). len w < m"
  shows "no_empty (sentence_step m st s)"
proof -
  obtain chunks cur where st: "st = (chunks, cur)" by (cases st)
  have a: "cur \<noteq> [] \<Longrightarrow> no_empty (chunks @ [cur], [])" "no_empty (chunks, [])"
    using assms(1) by (auto simp: st no_empty_def)
  have f: "cur \<noteq> [] \<Longrightarrow> no_empty (foldl (word_step m) (chunks @ [cur], []) (split_str '' '' s))"
    "no_empty (foldl (word_step m) (chunks, []) (split_str '' '' s))"
    using a assms(2) by (simp_all add: foldl_word_step_no_empty)
  show ?thesis
    unfolding st sentence_step_def using f assms(1)
    by (auto simp: Let_def st no_empty_def)
qed

lemma foldl_sentence_step_no_empty:
  "no_empty st \<Longrightarrow> \<forall>s \<in> set ss. \<forall>w \<in> set (split_str '' '' s). len w < m \<Longrightarrow>
   no_empty (foldl (sentence_step m) st ss)"
  by (induction ss arbitrary: st) (simp_all add: sentence_step_no_empty)

lemma paragraph_step_no_empty:
  assumes "no_empty st"
    "\<forall>s \<in> set (sentences_of p). \<forall>w \<in> set (split_str '' '' s). len w < m"
  shows "no_empty (paragraph_step m st p)"
proof -
  obtain chunks cur where st: "st = (chunks, cur)" by (cases st)
  have a: "cur \<noteq> [] \<Longrightarrow> no_empty (chunks @ [cur], [])" "no_empty (chunks, [])"
    using assms(1) by (auto simp: st no_empty_def)
  have f: "cur \<noteq> [] \<Longrightarrow> no_empty (foldl (sentence_step m) (chunks @ [cur], []) (sentences_of p))"
    "no_empty (foldl (sentence_step m) (chunks, []) (sentences_of p))"
    using a assms(2) by (simp_all add: foldl_sentence_step_no_empty)
  show ?thesis
    unfolding st paragraph_step_def using f assms(1)
    by (auto simp: Let_def st no_empty_def)
qed

lemma foldl_paragraph_step_no_empty:
  "no_empty st \<Longrightarrow>
   \<forall>p \<in> set ps. \<forall>s \<in> set (sentences_of p). \<forall>w \<in> set (split_str '' '' s). len w < m \<Longrightarrow>
   no_empty (foldl (paragraph_step m) st ps)"
  by (induction ps arbitrary: st) (simp_all add: paragraph_step_no_empty)

lemma split_long_message_no_empty:
  assumes "text \<noteq> []" "\<forall>w \<in> set (word_units text). len w < m"
  shows "[] \<notin> set (split_long_message text m)"
proof (cases "len text \<le> m")
  case True
  with assms show ?thesis by (simp add: split_long_message_def)
next
  case False
  obtain chunks cur where f: "foldl (paragraph_step m) ([], [])
      (split_str [CHR 0x0A, CHR 0x0A] text) = (chunks, cur)"
    by (cases "foldl (paragraph_step m) ([], []) (split_str [CHR 0x0A, CHR 0x0A] text)")
  have "no_empty (foldl (paragraph_step m) ([], []) (split_str [CHR 0x0A, CHR 0x0A] text))"
  proof (rule foldl_paragraph_step_no_empty)
    show "no_empty ([], [])" by (simp add: no_empty_def)
    show "\<forall>p \<in> set (split_str [CHR 0x0A, CHR 0x0A] text).
            \<forall>s \<in> set (sentences_of p). \<forall>w \<in> set (split_str '' '' s). len w < m"
      using word_units_intro assms(2) by blast
  qed
  then have "no_empty (chunks, cur)" by (simp add: f)
  with False f show ?thesis
    by (auto simp: split_long_message_def no_empty_def)
qed

subsection \<open>A text that no level can cut\<close>

lemma split_long_message_atomic:
  assumes "CHR '' '' \<notin> set t" "CHR 0x0A \<notin> set t" "len t > m" "t \<noteq> []"
  shows "split_long_message t m = [[], t]"
proof -
  have p: "split_str [CHR 0x0A, CHR 0x0A] t = [t]"
    using assms by (intro split_str_absent [of "CHR 0x0A"]) simp_all
  have r: "replace_str [CHR ''.'', CHR '' ''] [CHR ''.'', CHR 0x0A] t = t"
    using assms by (intro replace_str_absent [of "CHR '' ''"]) simp_all
  have s: "split_str [CHR 0x0A] t = [t]"
    using assms by (intro split_str_absent [of "CHR 0x0A"]) simp_all
  have w: "split_str '' '' t = [t]"
    using assms by (intro split_str_absent [of "CHR '' ''"]) simp_all
  show ?thesis
    using assms
    by (simp add: split_long_message_def paragraph_step_def sentences_of_def
        sentence_step_def word_step_def p r s w)
qed

section \<open>Claims about the segmenter\<close>

text \<open>
  Claim C1, as the code has it. The claim holds for a non-empty text all of whose words
  are shorter than \<open>max_length\<close>: then no chunk of \<^verbatim>\<open>split_long_message\<close> is empty. The
  empty text is returned as the one chunk \<open>[]\<close> by the first test of the function, so the
  claim fails there for every \<open>max_length\<close>. (What the word level does with a word that
  does not fit an empty accumulator is the subject of claim C2.)
\<close>

theorem segmenter_chunks_nonempty:
  "text \<noteq> [] \<Longrightarrow> words_fit text max_length \<Longrightarrow>
   [] \<notin> set (split_long_message text max_length)"
proof -
  assume t: "text \<noteq> []" and f: "words_fit text max_length"
  have "\<forall>w \<in> set (word_units text). len w < max_length"
    using f word_units_run by (auto simp: words_fit_def)
  with t show ?thesis by (rule split_long_message_no_empty)
qed

theorem segmenter_chunks_nonempty_witness:
  "''ab cd'' \<noteq> [] \<and> words_fit ''ab cd'' 3 \<and> [] \<notin> set (split_long_message ''ab cd'' 3) \<and>
   split_long_message ''ab cd'' 3 = [''ab'', ''cd'']"
proof -
  have t: "''ab cd'' \<noteq> []" by simp
  have f: "words_fit ''ab cd'' 3"
    by (auto simp: words_fit_def uncut_def sublist_Cons_right prefix_Cons)
  have v: "split_long_message ''ab cd'' 3 = [''ab'', ''cd'']"
    by (simp add: split_long_message_def paragraph_step_def sentences_of_def
        sentence_step_def word_step_def)
  show ?thesis
    using t f v segmenter_chunks_nonempty [OF t f] by simp
qed

theorem segmenter_empty_text_counterexample:
  "(0::int) < 1 \<and> [] \<in> set (split_long_message [] 1)"
  by (simp add: split_long_message_def)

text \<open>
  Claim C2. On a text of 5000 letters \<open>A\<close> with \<open>max_length = 4000\<close> the code returns two
  chunks, the empty string and then the whole text: the word level appends the empty
  accumulator before it starts the chunk of the oversized word.
\<close>

theorem segmenter_unsplittable_text:
  "split_long_message (replicate 5000 (CHR ''A'')) 4000 = [[], replicate 5000 (CHR ''A'')]"
  by (rule split_long_message_atomic) simp_all

text \<open>
  Claim C5. Every chunk returned by \<^verbatim>\<open>split_long_message\<close> has length at most
  \<open>max_length\<close>, except a chunk that is a stretch of the text without a space or a line
  feed and is itself longer than \<open>max_length\<close>: a single word, which the word level never
  cuts. The bound does not need \<open>max_length\<close> to be positive.
\<close>

theorem segmenter_size_bound:
  "c \<in> set (split_long_message text max_length) \<Longrightarrow>
   len c \<le> max_length \<or> (uncut text c \<and> len c > max_length)"
  by (drule split_long_message_ok) (auto simp: chunk_ok_def)

theorem segmenter_size_bound_witness:
  "''aaaaaaa'' \<in> set (split_long_message ''aaaaaaa bb'' 4) \<and>
   (len ''aaaaaaa'' \<le> 4 \<or> (uncut ''aaaaaaa bb'' ''aaaaaaa'' \<and> len ''aaaaaaa'' > 4))"
proof -
  have h: "''aaaaaaa'' \<in> set (split_long_message ''aaaaaaa bb'' 4)"
    by (simp add: split_long_message_def paragraph_step_def sentences_of_def
        sentence_step_def word_step_def)
  show ?thesis
    using h segmenter_size_bound [OF h] by simp
qed

text \<open>
  Claim C6. The characters of the chunks, read in order, are the characters of the input
  text once whitespace is left out on both sides: the segmenter drops or rewrites only
  spaces and line feeds (the separators it cuts at), and never drops or reorders anything
  else.
\<close>

theorem segmenter_preserves_content:
  "filter (\<lambda>c. \<not> is_whitespace c) (concat (split_long_message text max_length)) =
   filter (\<lambda>c. \<not> is_whitespace c) text"
  by (rule split_long_message_content) (simp_all add: is_whitespace_def)

section \<open>Lemmas about the selector\<close>

subsection \<open>Exceptions and rescaling\<close>

lemma and_then_Inr [simp]: "and_then (Inr x) f = f x"
  by (simp add: and_then_def)

lemma and_then_Inl [simp]: "and_then (Inl e) f = Inl e"
  by (simp add: and_then_def)

lemma rescaled_refl: "rescaled b d d"
  unfolding rescaled_def
  by (rule list_all2_refl) (auto intro: exI [of _ 1])

lemma rescaled_trans:
  assumes "rescaled b d d'" "rescaled b d' d''"
  shows "rescaled b d d''"
  unfolding rescaled_def
proof (rule list_all2_trans [OF _ assms [unfolded rescaled_def]])
  fix a b' c :: "string \<times> real"
  assume 1: "fst b' = fst a \<and> (\<exists>f. (if b then 0 < f else 0 \<le> f) \<and> snd b' = snd a * f)"
    and 2: "fst c = fst b' \<and> (\<exists>f. (if b then 0 < f else 0 \<le> f) \<and> snd c = snd b' * f)"
  from 1 obtain f where f: "if b then 0 < f else 0 \<le> f" "snd b' = snd a * f" by blast
  from 2 obtain g where g: "if b then 0 < g else 0 \<le> g" "snd c = snd b' * g" by blast
  have fg: "if b then 0 < f * g else 0 \<le> f * g"
    using f(1) g(1) by (cases b) simp_all
  have m: "snd c = snd a * (f * g)" using f(2) g(2) by simp
  have k: "fst c = fst a" using 1 2 by simp
  have "\<exists>h. (if b then 0 < h else 0 \<le> h) \<and> snd c = snd a * h"
    using fg m by (intro exI [of _ "f * g"] conjI)
  with k show "fst c = fst a \<and> (\<exists>f. (if b then 0 < f else 0 \<le> f) \<and> snd c = snd a * f)"
    by (rule conjI)
qed


lemma rescaled_keys: "rescaled b d d' \<Longrightarrow> map fst d' = map fst d"
  unfolding rescaled_def
  by (induction d d' rule: list_all2_induct) auto

lemma rescaled_length: "rescaled b d d' \<Longrightarrow> length d' = length d"
  unfolding rescaled_def by (simp add: list_all2_lengthD)





lemma scaled_rescaled: "0 < f \<Longrightarrow> rescaled True d (scaled k f d)"
  unfolding rescaled_def scaled_def
proof (induction d)
  case Nil
  then show ?case by simp
next
  case (Cons kv d)
  obtain k' v where kv: "kv = (k', v)" by (cases kv)
  have "\<exists>g>0. v = v * g" by (rule exI [of _ 1]) simp
  with Cons show ?case by (auto simp: kv)
qed

lemma scale_rescaled:
  "k \<in> set (map fst d) \<Longrightarrow> 0 < f \<Longrightarrow> \<exists>d'. scale k f d = Inr d' \<and> rescaled True d d'"
  by (simp add: scale_def scaled_rescaled)

lemma scale_all_rescaled:
  "list_all (\<lambda>kf. fst kf \<in> set (map fst d) \<and> 0 < snd kf) kfs \<Longrightarrow>
   \<exists>d'. scale_all kfs d = Inr d' \<and> rescaled True d d'"
proof (induction kfs arbitrary: d)
  case Nil
  then show ?case by (simp add: rescaled_refl)
next
  case (Cons kf kfs)
  obtain k f where kf: "kf = (k, f)" by (cases kf)
  from Cons.prems kf obtain d1 where d1: "scale k f d = Inr d1" "rescaled True d d1"
    using scale_rescaled [of k d f] by auto
  have keys: "map fst d1 = map fst d" using d1(2) by (rule rescaled_keys)
  have "list_all (\<lambda>kf. fst kf \<in> set (map fst d1) \<and> 0 < snd kf) kfs"
    using Cons.prems unfolding keys by simp
  then obtain d2 where d2: "scale_all kfs d1 = Inr d2" "rescaled True d1 d2"
    using Cons.IH by blast
  show ?case
    using d1 d2 by (auto simp: kf intro: rescaled_trans)
qed

subsection \<open>The adjustment stages\<close>

lemma rr_Inr: "returns_rescaled d (Inr d)"
  by (simp add: returns_rescaled_def rescaled_refl)

lemma rr_if:
  "(c \<Longrightarrow> returns_rescaled d a) \<Longrightarrow> (\<not> c \<Longrightarrow> returns_rescaled d b) \<Longrightarrow>
   returns_rescaled d (if c then a else b)"
  by simp

lemma rr_scale_all:
  "list_all (\<lambda>kf. fst kf \<in> set (map fst d) \<and> 0 < snd kf) kfs \<Longrightarrow>
   returns_rescaled d (scale_all kfs d)"
  unfolding returns_rescaled_def by (rule scale_all_rescaled)

lemma rr_and_then:
  assumes "returns_rescaled d r"
    and "\<And>d1. map fst d1 = map fst d \<Longrightarrow> returns_rescaled d1 (g d1)"
  shows "returns_rescaled d (and_then r g)"
proof -
  from assms(1) obtain d1 where d1: "r = Inr d1" "rescaled True d d1"
    by (auto simp: returns_rescaled_def)
  have "map fst d1 = map fst d" using d1(2) by (rule rescaled_keys)
  then obtain d2 where d2: "g d1 = Inr d2" "rescaled True d1 d2"
    using assms(2) by (auto simp: returns_rescaled_def)
  show ?thesis
    unfolding returns_rescaled_def using d1 d2 by (auto intro: rescaled_trans)
qed

lemma content_rescaled:
  "map fst d = class_names \<Longrightarrow>
   returns_rescaled d (adjust_probabilities_for_content d message_content)"
  unfolding adjust_probabilities_for_content_def
  apply (intro rr_and_then rr_if rr_scale_all rr_Inr)
  apply (simp_all add: class_names_def)
  done

lemma context_rescaled:
  "map fst d = class_names \<Longrightarrow>
   returns_rescaled d (adjust_probabilities_for_context d ctx)"
  unfolding adjust_probabilities_for_context_def
  apply (intro rr_and_then rr_if rr_scale_all rr_Inr)
  apply (simp_all add: class_names_def)
  done

lemma push_away_rescaled:
  "map fst d = class_names \<Longrightarrow> returns_rescaled d (push_away prev d)"
  unfolding push_away_def
  apply (intro rr_and_then rr_if rr_scale_all rr_Inr)
  apply (simp_all add: class_names_def)
  done

lemma choice_uniform:
  assumes "uniform rnd" "seq \<noteq> []"
  shows "\<exists>x \<in> set seq. choice rnd pos seq = Inr (x, Suc pos)"
proof -
  let ?n = "length seq"
  have u: "0 \<le> rnd pos" "rnd pos < 1" using assms(1) by (simp_all add: uniform_def)
  have n: "0 < real ?n" using assms(2) by simp
  have "rnd pos * real ?n < real ?n" using u n by simp
  then have "\<lfloor>rnd pos * real ?n\<rfloor> < int ?n" by (simp add: floor_less_iff)
  moreover have "0 \<le> \<lfloor>rnd pos * real ?n\<rfloor>" using u n by simp
  ultimately have "nat \<lfloor>rnd pos * real ?n\<rfloor> < ?n" by (simp add: nat_less_iff)
  then show ?thesis by (auto simp: choice_def Let_def)
qed

lemma boost_rescaled:
  assumes "map fst d = class_names" "uniform rnd" "prev \<in> set class_names"
  shows "\<exists>d'. boost_random_type rnd prev (d, pos) = Inr (d', Suc pos) \<and> rescaled True d d'"
proof -
  have ne: "remove1 prev (map fst d) \<noteq> []"
    unfolding assms(1) by (auto simp: class_names_def)
  from choice_uniform [OF assms(2) ne, of pos]
  obtain x where x: "x \<in> set (remove1 prev (map fst d))"
    "choice rnd pos (remove1 prev (map fst d)) = Inr (x, Suc pos)" by blast
  have "x \<in> set (map fst d)" using x(1) set_remove1_subset [of prev "map fst d"] by blast
  then obtain d' where "scale x 4.0 d = Inr d'" "rescaled True d d'"
    using scale_rescaled [of x d "4.0"] by auto
  moreover have "prev \<in> set (map fst d)" unfolding assms(1) by (rule assms(3))
  ultimately show ?thesis
    using x(2) by (simp add: boost_random_type_def)
qed

lemma variety_rescaled:
  assumes "map fst d = class_names" "uniform rnd" "state_ok self"
  shows "\<exists>d' pos'. adjust_probabilities_for_variety rnd self (d, pos) = Inr (d', pos') \<and>
           rescaled True d d'"
proof (cases "last_response_type self")
  case None
  then show ?thesis by (simp add: adjust_probabilities_for_variety_def rescaled_refl)
next
  case (Some prev)
  have prev: "prev \<in> set class_names" using assms(3) Some by (simp add: state_ok_def)
  show ?thesis
  proof (cases "consecutive_same_type_count self > 0 \<and> prev \<noteq> []")
    case False
    then show ?thesis
      using Some by (auto simp: adjust_probabilities_for_variety_def rescaled_refl)
  next
    case True
    have "0 < reduction_factor (consecutive_same_type_count self)"
      by (simp add: reduction_factor_def)
    then obtain d1 where d1:
      "scale prev (reduction_factor (consecutive_same_type_count self)) d = Inr d1"
      "rescaled True d d1"
      using scale_rescaled [of prev d] prev assms(1) by auto
    have k1: "map fst d1 = class_names" using rescaled_keys [OF d1(2)] assms(1) by simp
    obtain d2 where d2: "push_away prev d1 = Inr d2" "rescaled True d1 d2"
      using push_away_rescaled [OF k1] by (auto simp: returns_rescaled_def)
    have k2: "map fst d2 = class_names" using rescaled_keys [OF d2(2)] k1 by simp
    define d3 where "d3 = (if rnd pos < 0.8 then d2 else d1)"
    have r3: "rescaled True d d3"
      using d1(2) d2(2) by (auto simp: d3_def intro: rescaled_trans)
    have k3: "map fst d3 = class_names" using k1 k2 by (simp add: d3_def)
    obtain d4 where d4: "boost_random_type rnd prev (d3, Suc (Suc pos)) = Inr (d4, Suc (Suc (Suc pos)))"
      "rescaled True d3 d4"
      using boost_rescaled [OF k3 assms(2) prev] by blast
    have r4: "rescaled True d d4" using r3 d4(2) by (rule rescaled_trans)
    show ?thesis
      using Some True d1(1) d2(1) d4(1) r3 r4
      by (auto simp: adjust_probabilities_for_variety_def d3_def)
  qed
qed



lemma apply_randomness_length: "length (apply_randomness R rnd pos d) = length d"
  by (induction d arbitrary: pos) auto

lemma base_keys: "map fst (base_probabilities cfg) = class_names"
  by (simp add: base_probabilities_def class_names_def)



lemma divided_keys: "map fst (map (\<lambda>(k, v). (k, v / t)) d) = map fst d"
  by (induction d) auto


lemma cumulative_keys: "map fst (cumulative c d) = map fst d"
  by (induction c d rule: cumulative.induct) auto

lemma first_reached_mem:
  "first_reached v cps \<in> insert ''medium'' (set (map fst cps))"
  by (induction v cps rule: first_reached.induct) auto

lemma first_reached_class:
  "map fst d = class_names \<Longrightarrow> first_reached v (cumulative c d) \<in> set class_names"
  using first_reached_mem [of v "cumulative c d"]
  by (auto simp: cumulative_keys class_names_def)

lemma first_reached_filter:
  "first_reached v (cumulative c d) =
     (case filter (\<lambda>i. v \<le> c + sum_list (map snd (take (Suc i) d))) [0..<length d] of
        [] \<Rightarrow> ''medium''
      | i # _ \<Rightarrow> fst (d ! i))"
proof (induction d arbitrary: c)
  case Nil
  show ?case by simp
next
  case (Cons kp d)
  obtain k p where kp: "kp = (k, p)" by (cases kp)
  have upt: "[0..<length (kp # d)] = 0 # map Suc [0..<length d]"
    by (simp add: upt_conv_Cons map_Suc_upt del: upt_Suc)
  show ?case
  proof (cases "v \<le> c + p")
    case True
    then show ?thesis unfolding upt by (simp add: kp)
  next
    case False
    let ?ys = "filter (\<lambda>i. v \<le> c + p + sum_list (map snd (take (Suc i) d))) [0..<length d]"
    have f: "filter (\<lambda>i. v \<le> c + sum_list (map snd (take (Suc i) (kp # d))))
               (0 # map Suc [0..<length d]) = map Suc ?ys"
      using False by (simp add: kp filter_map comp_def add.assoc)
    have "(case map Suc ?ys of [] \<Rightarrow> ''medium'' | i # _ \<Rightarrow> fst ((kp # d) ! i)) =
          (case ?ys of [] \<Rightarrow> ''medium'' | i # _ \<Rightarrow> fst (d ! i))"
      by (cases ?ys) simp_all
    then show ?thesis
      unfolding upt f using False Cons.IH [of "c + p"] by (simp add: kp)
  qed
qed

lemma first_reached_sample_spec: "first_reached v (cumulative 0 d) = sample_spec v d"
  by (simp add: first_reached_filter sample_spec_def)

lemma get_response_type_enabled:
  assumes "DYNAMIC_MESSAGE_LENGTH_ENABLED cfg"
    "adjusted_probabilities cfg rnd self pos message_content context = Inr (d, p)"
    "normalize d = Inr n"
  shows "get_response_type cfg rnd self pos message_content context =
           Inr (sample_spec (rnd p) n, update_tracking self (sample_spec (rnd p) n), Suc p)"
  using assms
  by (simp add: get_response_type_def select_response_type_def first_reached_sample_spec)

lemma get_response_type_tracking:
  assumes "DYNAMIC_MESSAGE_LENGTH_ENABLED cfg"
    "get_response_type cfg rnd self pos message_content context = Inr (r, self', pos')"
  shows "self' = update_tracking self r"
  using assms
  by (auto simp: get_response_type_def select_response_type_def and_then_def
      split: sum.splits prod.splits)

subsection \<open>What a call can return\<close>

lemma choice_cases:
  "choice rnd pos seq = Inl IndexError \<or> (\<exists>x \<in> set seq. choice rnd pos seq = Inr (x, Suc pos))"
  by (auto simp: choice_def Let_def)

lemma boost_cases:
  assumes "map fst d = class_names" "prev \<in> set class_names"
  shows "boost_random_type rnd prev (d, pos) = Inl IndexError \<or>
         (\<exists>d'. boost_random_type rnd prev (d, pos) = Inr (d', Suc pos) \<and> rescaled True d d')"
proof -
  have pk: "prev \<in> set (map fst d)" unfolding assms(1) by (rule assms(2))
  from choice_cases [of rnd pos "remove1 prev (map fst d)"] show ?thesis
  proof
    assume "choice rnd pos (remove1 prev (map fst d)) = Inl IndexError"
    then show ?thesis using pk by (simp add: boost_random_type_def)
  next
    assume "\<exists>x \<in> set (remove1 prev (map fst d)).
              choice rnd pos (remove1 prev (map fst d)) = Inr (x, Suc pos)"
    then obtain x where x: "x \<in> set (remove1 prev (map fst d))"
      "choice rnd pos (remove1 prev (map fst d)) = Inr (x, Suc pos)" by blast
    have "x \<in> set (map fst d)" using x(1) set_remove1_subset [of prev "map fst d"] by blast
    then obtain d' where "scale x 4.0 d = Inr d'" "rescaled True d d'"
      using scale_rescaled [of x d "4.0"] by auto
    then show ?thesis using x(2) pk by (simp add: boost_random_type_def)
  qed
qed

lemma variety_cases:
  assumes "map fst d = class_names" "state_ok self"
  shows "adjust_probabilities_for_variety rnd self (d, pos) = Inl IndexError \<or>
         (\<exists>d' pos'. adjust_probabilities_for_variety rnd self (d, pos) = Inr (d', pos') \<and>
            rescaled True d d')"
proof (cases "last_response_type self")
  case None
  then show ?thesis by (simp add: adjust_probabilities_for_variety_def rescaled_refl)
next
  case (Some prev)
  have prev: "prev \<in> set class_names" using assms(2) Some by (simp add: state_ok_def)
  show ?thesis
  proof (cases "consecutive_same_type_count self > 0 \<and> prev \<noteq> []")
    case False
    then show ?thesis
      using Some by (auto simp: adjust_probabilities_for_variety_def rescaled_refl)
  next
    case True
    have "0 < reduction_factor (consecutive_same_type_count self)"
      by (simp add: reduction_factor_def)
    then obtain d1 where d1:
      "scale prev (reduction_factor (consecutive_same_type_count self)) d = Inr d1"
      "rescaled True d d1"
      using scale_rescaled [of prev d] prev assms(1) by auto
    have k1: "map fst d1 = class_names" using rescaled_keys [OF d1(2)] assms(1) by simp
    obtain d2 where d2: "push_away prev d1 = Inr d2" "rescaled True d1 d2"
      using push_away_rescaled [OF k1] by (auto simp: returns_rescaled_def)
    have k2: "map fst d2 = class_names" using rescaled_keys [OF d2(2)] k1 by simp
    define d3 where "d3 = (if rnd pos < 0.8 then d2 else d1)"
    have r3: "rescaled True d d3"
      using d1(2) d2(2) by (auto simp: d3_def intro: rescaled_trans)
    have k3: "map fst d3 = class_names" using k1 k2 by (simp add: d3_def)
    from boost_cases [OF k3 prev, of rnd "Suc (Suc pos)"] show ?thesis
    proof
      assume "boost_random_type rnd prev (d3, Suc (Suc pos)) = Inl IndexError"
      then show ?thesis
        using Some True d1(1) d2(1) r3
        by (auto simp: adjust_probabilities_for_variety_def d3_def)
    next
      assume "\<exists>d'. boost_random_type rnd prev (d3, Suc (Suc pos)) = Inr (d', Suc (Suc (Suc pos))) \<and>
                rescaled True d3 d'"
      then obtain d4 where
        d4: "boost_random_type rnd prev (d3, Suc (Suc pos)) = Inr (d4, Suc (Suc (Suc pos)))"
        "rescaled True d3 d4" by blast
      have r4: "rescaled True d d4" using r3 d4(2) by (rule rescaled_trans)
      show ?thesis
        using Some True d1(1) d2(1) d4(1) r3 r4
        by (auto simp: adjust_probabilities_for_variety_def d3_def)
    qed
  qed
qed

lemma apply_randomness_keys: "map fst (apply_randomness R rnd pos d) = map fst d"
  by (induction d arbitrary: pos) auto

lemma adjusted_cases:
  assumes "state_ok self"
  shows "adjusted_probabilities cfg rnd self pos message_content context = Inl IndexError \<or>
         (\<exists>d p. adjusted_probabilities cfg rnd self pos message_content context = Inr (d, p) \<and>
            map fst d = class_names)"
proof -
  obtain d1 where d1:
    "adjust_probabilities_for_content (base_probabilities cfg) message_content = Inr d1"
    "rescaled True (base_probabilities cfg) d1"
    using content_rescaled [OF base_keys] by (auto simp: returns_rescaled_def)
  have k1: "map fst d1 = class_names" using rescaled_keys [OF d1(2)] base_keys by simp
  obtain d2 where d2:
    "(case context of None \<Rightarrow> Inr d1 | Some ctx \<Rightarrow> adjust_probabilities_for_context d1 ctx)
       = Inr d2" "rescaled True d1 d2"
  proof (cases "context")
    case None
    then show ?thesis using that [of d1] by (simp add: rescaled_refl)
  next
    case (Some ctx)
    then show ?thesis
      using that context_rescaled [OF k1, of ctx] by (auto simp: returns_rescaled_def)
  qed
  have k2: "map fst d2 = class_names" using rescaled_keys [OF d2(2)] k1 by simp
  from variety_cases [OF k2 assms, of rnd pos] show ?thesis
  proof
    assume "adjust_probabilities_for_variety rnd self (d2, pos) = Inl IndexError"
    then show ?thesis using d1(1) d2(1) by (simp add: adjusted_probabilities_def)
  next
    assume "\<exists>d' pos'. adjust_probabilities_for_variety rnd self (d2, pos) = Inr (d', pos') \<and>
              rescaled True d2 d'"
    then obtain d3 p3 where d3:
      "adjust_probabilities_for_variety rnd self (d2, pos) = Inr (d3, p3)" "rescaled True d2 d3"
      by blast
    have "map fst d3 = class_names" using rescaled_keys [OF d3(2)] k2 by simp
    then show ?thesis
      using d1(1) d2(1) d3(1) by (simp add: adjusted_probabilities_def apply_randomness_keys)
  qed
qed

lemma normalize_cases:
  "normalize d = Inl ZeroDivisionError \<or> (\<exists>n. normalize d = Inr n \<and> map fst n = map fst d)"
  using divided_keys [of "sum_list (map snd d)" d]
  by (simp add: normalize_def Let_def del: map_map)

lemma update_tracking_ok:
  "state_ok self \<Longrightarrow> r \<in> set class_names \<Longrightarrow> state_ok (update_tracking self r)"
  by (auto simp: state_ok_def update_tracking_def split: option.splits)

lemma get_response_type_cases:
  assumes "state_ok self"
  shows "get_response_type cfg rnd self pos message_content context = Inl IndexError \<or>
         get_response_type cfg rnd self pos message_content context = Inl ZeroDivisionError \<or>
         (\<exists>r self' pos'.
            get_response_type cfg rnd self pos message_content context = Inr (r, self', pos') \<and>
            r \<in> set class_names \<and> state_ok self')"
proof (cases "DYNAMIC_MESSAGE_LENGTH_ENABLED cfg")
  case False
  then show ?thesis
    using assms by (simp add: get_response_type_def class_names_def)
next
  case True
  from adjusted_cases [OF assms, of cfg rnd pos message_content "context"] show ?thesis
  proof
    assume "adjusted_probabilities cfg rnd self pos message_content context = Inl IndexError"
    then show ?thesis using True by (simp add: get_response_type_def)
  next
    assume "\<exists>d p. adjusted_probabilities cfg rnd self pos message_content context = Inr (d, p) \<and>
              map fst d = class_names"
    then obtain d p where d:
      "adjusted_probabilities cfg rnd self pos message_content context = Inr (d, p)"
      "map fst d = class_names" by blast
    from normalize_cases [of d] show ?thesis
    proof
      assume "normalize d = Inl ZeroDivisionError"
      then show ?thesis using True d(1) by (simp add: get_response_type_def)
    next
      assume "\<exists>n. normalize d = Inr n \<and> map fst n = map fst d"
      then obtain n where n: "normalize d = Inr n" "map fst n = class_names"
        using d(2) by auto
      have r: "sample_spec (rnd p) n \<in> set class_names"
        using first_reached_class [OF n(2), of "rnd p" 0]
        by (simp add: first_reached_sample_spec)
      then have "state_ok (update_tracking self (sample_spec (rnd p) n))"
        using assms update_tracking_ok by blast
      then show ?thesis
        using r get_response_type_enabled [OF True d(1) n(1)] by simp
    qed
  qed
qed

lemma reachable_state_ok: "reachable self \<Longrightarrow> state_ok self"
proof (induction rule: reachable.induct)
  case fresh
  show ?case by (simp add: state_ok_def init_manager_def)
next
  case (call self cfg rnd pos message_content "context" r self' pos')
  from get_response_type_cases [OF call.IH, of cfg rnd pos message_content "context"] call.hyps(2)
  show ?case by auto
qed

subsection \<open>The tracking attributes along a conversation\<close>

lemma tracks_step: "tracks hist self \<Longrightarrow> tracks (hist @ [r]) (update_tracking self r)"
proof (cases "hist = []")
  case True
  assume "tracks hist self"
  with True show ?thesis
    by (simp add: tracks_def update_tracking_def trailing_run_def)
next
  case False
  assume t: "tracks hist self"
  with False have l: "last_response_type self = Some (last hist)"
    and c: "consecutive_same_type_count self = int (trailing_run hist) - 1"
    by (simp_all add: tracks_def)
  have rv: "rev hist = last hist # rev (butlast hist)"
    using False by (cases hist rule: rev_cases) simp_all
  show ?thesis
  proof (cases "r = last hist")
    case True
    have "trailing_run (hist @ [r]) = Suc (trailing_run hist)"
      using True by (simp add: trailing_run_def)
    then show ?thesis using True l c by (simp add: tracks_def update_tracking_def)
  next
    case ne: False
    have "trailing_run (hist @ [r]) = 1"
      using ne by (simp add: trailing_run_def rv)
    then show ?thesis using ne l by (simp add: tracks_def update_tracking_def)
  qed
qed

lemma run_turns_tracks:
  assumes "DYNAMIC_MESSAGE_LENGTH_ENABLED cfg"
  shows "tracks hist self \<Longrightarrow> run_turns cfg rnd turns self pos = Inr (rs, self', pos') \<Longrightarrow>
         tracks (hist @ rs) self'"
proof (induction turns arbitrary: hist self pos rs)
  case Nil
  then show ?case by simp
next
  case (Cons t turns)
  obtain m c where t: "t = (m, c)" by (cases t)
  from Cons.prems(2) obtain r s1 p1 rs1 where
    g: "get_response_type cfg rnd self pos m c = Inr (r, s1, p1)" and
    rt: "run_turns cfg rnd turns s1 p1 = Inr (rs1, self', pos')" and
    rs: "rs = r # rs1"
    by (auto simp: t and_then_def split: sum.splits prod.splits)
  have "s1 = update_tracking self r" using assms g by (rule get_response_type_tracking)
  then have "tracks (hist @ [r]) s1" using Cons.prems(1) by (simp add: tracks_step)
  then have "tracks ((hist @ [r]) @ rs1) self'" using rt by (rule Cons.IH)
  then show ?case by (simp add: rs)
qed

lemmas selector_eval = get_response_type_def default_config_def init_manager_def
  adjusted_probabilities_def adjust_probabilities_for_content_def
  adjust_probabilities_for_variety_def scale_def scaled_def base_probabilities_def
  normalize_def select_response_type_def update_tracking_def command_indicators_def
  lower_char_def sublist_Cons_right

section \<open>Claims about the selector\<close>

text \<open>
  Claim C3, as the code has it. For a count of at least 1 the damping factor
  \<open>min(0.3, 0.8^n)\<close> is non-increasing in the count and never above 0.3: 0.3 is a cap, not
  a floor. From the sixth repeat on the factor is below 0.3, which refutes the lower
  bound of the claim.
\<close>

theorem reduction_factor_monotone_capped:
  "1 \<le> n \<Longrightarrow> n \<le> n' \<Longrightarrow>
   reduction_factor n' \<le> reduction_factor n \<and> reduction_factor n \<le> 0.3"
proof -
  assume n: "1 \<le> n" "n \<le> n'"
  then have "nat n \<le> nat n'" by simp
  then have "(0.8::real) ^ nat n' \<le> 0.8 ^ nat n"
    by (intro power_decreasing) simp_all
  then have "power_int (0.8::real) n' \<le> power_int 0.8 n"
    using n by (simp add: power_int_def)
  then show ?thesis
    by (auto simp: reduction_factor_def min_def)
qed

theorem reduction_factor_monotone_capped_witness:
  "(1::int) \<le> 3 \<and> (3::int) \<le> 6 \<and> reduction_factor 6 \<le> reduction_factor 3 \<and>
   reduction_factor 3 \<le> 0.3 \<and> reduction_factor 3 = 0.3 \<and> reduction_factor 6 = 0.262144"
proof -
  have h: "(1::int) \<le> 3" "(3::int) \<le> 6" by simp_all
  have v: "reduction_factor 3 = 0.3" "reduction_factor 6 = 0.262144"
    by (simp_all add: reduction_factor_def power_int_def min_def power_divide)
  show ?thesis
    using h v reduction_factor_monotone_capped [OF h] by simp
qed

theorem reduction_factor_below_floor_counterexample:
  "(1::int) \<le> 6 \<and> reduction_factor 6 < 0.3"
  by (simp add: reduction_factor_def power_int_def min_def power_divide)

text \<open>
  Claim C8. With the switch \<^verbatim>\<open>DYNAMIC_MESSAGE_LENGTH_ENABLED\<close> off, every call of
  \<^verbatim>\<open>get_response_type\<close> returns \<^verbatim>\<open>"medium"\<close>, leaves both attributes of the manager as
  they were and draws no random value, whatever the message and the context.
\<close>

theorem disabled_returns_medium:
  "\<not> DYNAMIC_MESSAGE_LENGTH_ENABLED cfg \<Longrightarrow>
   get_response_type cfg rnd self pos message_content context = Inr (''medium'', self, pos)"
  by (simp add: get_response_type_def)

theorem disabled_returns_medium_witness:
  "\<not> DYNAMIC_MESSAGE_LENGTH_ENABLED (default_config\<lparr>DYNAMIC_MESSAGE_LENGTH_ENABLED := False\<rparr>) \<and>
   get_response_type (default_config\<lparr>DYNAMIC_MESSAGE_LENGTH_ENABLED := False\<rparr>) (\<lambda>_. 1/2)
     \<lparr>last_response_type = Some ''long'', consecutive_same_type_count = 2\<rparr> 7
     ''tell me more?'' None
   = Inr (''medium'', \<lparr>last_response_type = Some ''long'', consecutive_same_type_count = 2\<rparr>, 7)"
proof -
  have h: "\<not> DYNAMIC_MESSAGE_LENGTH_ENABLED
             (default_config\<lparr>DYNAMIC_MESSAGE_LENGTH_ENABLED := False\<rparr>)"
    by simp
  show ?thesis using h disabled_returns_medium [OF h] by simp
qed







text \<open>
  Claim C9, as the code has it. With the switch on, after a conversation of at least one
  turn the manager holds the class of the last turn, and its count is one less than the
  number of turns at the end of the conversation that chose that class: the count is the
  number of repeats, 0 after the first turn of a run and \<open>k - 1\<close> after \<open>k\<close> turns in a
  row. A turn that chooses a class other than the one held sets the count to 0.
\<close>

theorem count_tracks_repeats:
  "DYNAMIC_MESSAGE_LENGTH_ENABLED cfg \<Longrightarrow>
   run_turns cfg rnd turns init_manager pos = Inr (rs, self', pos') \<Longrightarrow> rs \<noteq> [] \<Longrightarrow>
   last_response_type self' = Some (last rs) \<and>
   consecutive_same_type_count self' = int (trailing_run rs) - 1 \<and>
   (Some r \<noteq> last_response_type self' \<longrightarrow>
      update_tracking self' r =
        \<lparr>last_response_type = Some r, consecutive_same_type_count = 0\<rparr>)"
proof -
  assume e: "DYNAMIC_MESSAGE_LENGTH_ENABLED cfg"
    and r: "run_turns cfg rnd turns init_manager pos = Inr (rs, self', pos')" and ne: "rs \<noteq> []"
  have "tracks [] init_manager" by (simp add: tracks_def init_manager_def)
  then have "tracks ([] @ rs) self'" using r by (rule run_turns_tracks [OF e])
  then show ?thesis using ne by (simp add: tracks_def update_tracking_def)
qed

theorem count_tracks_repeats_witness:
  "DYNAMIC_MESSAGE_LENGTH_ENABLED default_config \<and>
   run_turns default_config (\<lambda>_. 1/2) [(''hi'', None), (''hi'', None)] init_manager 0 =
     Inr ([''medium'', ''medium''],
          \<lparr>last_response_type = Some ''medium'', consecutive_same_type_count = 1\<rparr>, 12) \<and>
   [''medium'', ''medium''] \<noteq> [] \<and>
   consecutive_same_type_count
     \<lparr>last_response_type = Some ''medium'', consecutive_same_type_count = 1\<rparr> =
     int (trailing_run [''medium'', ''medium'']) - 1"
proof -
  have h1: "DYNAMIC_MESSAGE_LENGTH_ENABLED default_config"
    by (simp add: default_config_def)
  have h2: "run_turns default_config (\<lambda>_. 1/2) [(''hi'', None), (''hi'', None)] init_manager 0 =
     Inr ([''medium'', ''medium''],
          \<lparr>last_response_type = Some ''medium'', consecutive_same_type_count = 1\<rparr>, 12)"
    by (simp add: selector_eval)
  have h3: "[''medium'', ''medium''] \<noteq> []" by simp
  show ?thesis
    using h1 h2 h3 count_tracks_repeats [OF h1 h2 h3] by simp
qed

theorem count_after_two_turns_counterexample:
  "run_turns default_config (\<lambda>_. 1/2) [(''hi'', None), (''hi'', None)] init_manager 0 =
     Inr ([''medium'', ''medium''],
          \<lparr>last_response_type = Some ''medium'', consecutive_same_type_count = 1\<rparr>, 12) \<and>
   trailing_run [''medium'', ''medium''] = 2"
  by (simp add: selector_eval trailing_run_def)

text \<open>
  Claim C10. Every manager that a conversation can reach holds no class or one of the five
  class strings, and a count that is not negative. On such a manager and a dictionary
  with the five keys, the variety stage does nothing when no class is held, and neither
  the lookup \<^verbatim>\<open>probabilities[self.last_response_type]\<close> nor the removal of the held class
  from the keys can fail: the stage never raises KeyError or ValueError, nor does the
  whole call, and with draws in \<open>[0, 1)\<close> the stage returns.
\<close>

theorem variety_lookup_never_fails:
  assumes "reachable self" and "map fst d = class_names"
  shows "state_ok self \<and>
     (last_response_type self = None \<longrightarrow>
        adjust_probabilities_for_variety rnd self (d, pos) = Inr (d, pos)) \<and>
     adjust_probabilities_for_variety rnd self (d, pos) \<noteq> Inl KeyError \<and>
     adjust_probabilities_for_variety rnd self (d, pos) \<noteq> Inl ValueError \<and>
     get_response_type cfg rnd self pos message_content context \<noteq> Inl KeyError \<and>
     get_response_type cfg rnd self pos message_content context \<noteq> Inl ValueError \<and>
     (uniform rnd \<longrightarrow>
        (\<exists>d' pos'. adjust_probabilities_for_variety rnd self (d, pos) = Inr (d', pos') \<and>
           map fst d' = class_names))"
proof -
  have ok: "state_ok self" using assms(1) by (rule reachable_state_ok)
  have 1: "last_response_type self = None \<longrightarrow>
        adjust_probabilities_for_variety rnd self (d, pos) = Inr (d, pos)"
    by (simp add: adjust_probabilities_for_variety_def)
  have 2: "adjust_probabilities_for_variety rnd self (d, pos) \<noteq> Inl KeyError \<and>
     adjust_probabilities_for_variety rnd self (d, pos) \<noteq> Inl ValueError"
    using variety_cases [OF assms(2) ok, of rnd pos] by auto
  have 3: "get_response_type cfg rnd self pos message_content context \<noteq> Inl KeyError \<and>
     get_response_type cfg rnd self pos message_content context \<noteq> Inl ValueError"
    using get_response_type_cases [OF ok, of cfg rnd pos message_content "context"] by auto
  have 4: "uniform rnd \<longrightarrow>
        (\<exists>d' pos'. adjust_probabilities_for_variety rnd self (d, pos) = Inr (d', pos') \<and>
           map fst d' = class_names)"
  proof
    assume u: "uniform rnd"
    from variety_rescaled [OF assms(2) u ok, of pos]
    obtain d' pos' where x:
      "adjust_probabilities_for_variety rnd self (d, pos) = Inr (d', pos')"
      "rescaled True d d'" by blast
    have "map fst d' = class_names" using rescaled_keys [OF x(2)] assms(2) by simp
    with x(1) show "\<exists>d' pos'.
        adjust_probabilities_for_variety rnd self (d, pos) = Inr (d', pos') \<and>
        map fst d' = class_names" by blast
  qed
  show ?thesis using ok 1 2 3 4 by simp
qed

theorem variety_lookup_never_fails_witness:
  "reachable \<lparr>last_response_type = Some ''medium'', consecutive_same_type_count = 1\<rparr> \<and>
   map fst (base_probabilities default_config) = class_names \<and>
   state_ok \<lparr>last_response_type = Some ''medium'', consecutive_same_type_count = 1\<rparr> \<and>
   adjust_probabilities_for_variety (\<lambda>_. 1/2)
     \<lparr>last_response_type = Some ''medium'', consecutive_same_type_count = 1\<rparr>
     (base_probabilities default_config, 0)
   = Inr ([(''extremely_short'', 0.375), (''slightly_short'', 0.2), (''medium'', 0.075),
           (''slightly_long'', 0.2), (''long'', 0.5)], 2)"
proof -
  let ?s1 = "\<lparr>last_response_type = Some ''medium'', consecutive_same_type_count = 0\<rparr>"
  let ?s2 = "\<lparr>last_response_type = Some ''medium'', consecutive_same_type_count = 1\<rparr>"
  have g1: "get_response_type default_config (\<lambda>_. 1/2) init_manager 0 ''hi'' None =
      Inr (''medium'', ?s1, 6)"
    by (simp add: selector_eval)
  have g2: "get_response_type default_config (\<lambda>_. 1/2) ?s1 6 ''hi'' None =
      Inr (''medium'', ?s2, 12)"
    by (simp add: selector_eval)
  have h1: "reachable ?s2"
    using reachable.call [OF reachable.call [OF reachable.fresh g1] g2] .
  have h2: "map fst (base_probabilities default_config) = class_names"
    by (rule base_keys)
  have v: "adjust_probabilities_for_variety (\<lambda>_. 1/2) ?s2 (base_probabilities default_config, 0)
   = Inr ([(''extremely_short'', 0.375), (''slightly_short'', 0.2), (''medium'', 0.075),
           (''slightly_long'', 0.2), (''long'', 0.5)], 2)"
    by (simp add: selector_eval push_away_def reduction_factor_def)
  show ?thesis
    using h1 h2 v
      variety_lookup_never_fails [OF h1 h2, of "\<lambda>_. 1/2" 0 default_config "''hi''" None]
    by simp
qed

end
